theory Spec2Isabelle
  imports Main "HOL-Library.Word"
begin

section \<open>The signaling relay of server.js\<close>

text \<open>
  The server keeps one \<^verbatim>\<open>Set\<close> of WebSocket objects, \<^verbatim>\<open>clients\<close>, and attaches three
  handlers to every accepted socket: \<^verbatim>\<open>message\<close> relays the payload to the other open
  clients, \<^verbatim>\<open>close\<close> deletes the socket from the set, \<^verbatim>\<open>error\<close> writes a line to the
  console. The handlers run on Node's single-threaded event loop: each one runs to its
  end before the next event is dispatched, so an execution is a sequence of events and
  every handler is a function from the state before to the state after.

  The \<^verbatim>\<open>console.log\<close> and \<^verbatim>\<open>console.error\<close> lines (and the \<^verbatim>\<open>preview\<close> string computed only
  for them) write to the terminal and are read by nothing; they are left out of the state.
\<close>

subsection \<open>Data\<close>

text \<open>A WebSocket object is known by its identity.\<close>

type_synonym ws = nat

type_synonym byte = "8 word"

text \<open>
  A JavaScript string, as the sequence of its code points. (The strings of this program
  come out of the UTF-8 decoder, which yields Unicode scalar values only, so the code
  points carry the same information as the UTF-16 code units.)
\<close>

type_synonym jsstring = "nat list"

text \<open>A WebSocket message as it is on the wire: text or binary, with its payload bytes.\<close>

datatype opcode = Text | Binary

record frame =
  opcode :: opcode
  payload :: "byte list"

text \<open>
  What the \<^verbatim>\<open>ws\<close> library owns of a socket: \<^verbatim>\<open>readyState\<close>
  (0 connecting, 1 open, 2 closing, 3 closed), and whether a call of \<^verbatim>\<open>send\<close> on it
  throws. The server only reads the first and calls the second. (The library's
  \<^verbatim>\<open>send\<close> throws on a socket that is still connecting, and on no other; a write that
  fails is reported later, by the \<^verbatim>\<open>error\<close> and \<^verbatim>\<open>close\<close> events of that socket.)
\<close>

record socket =
  readyState :: nat
  sendThrows :: bool

text \<open>
  The state of the process: the \<^verbatim>\<open>clients\<close> set in insertion order (the order in which
  \<^verbatim>\<open>for ... of\<close> visits a \<^verbatim>\<open>Set\<close>), the sockets the connection callback has attached its
  handlers to, the sockets themselves, the calls of \<^verbatim>\<open>send\<close> that returned (destination
  and argument, oldest first), and whether an exception has left a handler uncaught
  (server.js installs no handler for that, so Node ends the process).
\<close>

record server =
  clients :: "ws list"
  listeners :: "ws list"
  sockets :: "ws \<Rightarrow> socket"
  sent :: "(ws \<times> jsstring) list"
  uncaught :: bool

definition init :: server where
  "init = \<lparr>clients = [], listeners = [],
           sockets = (\<lambda>_. \<lparr>readyState = 0, sendThrows = False\<rparr>),
           sent = [], uncaught = False\<rparr>"

subsection \<open>Set.prototype.add and Set.prototype.delete\<close>

definition set_add :: "'a \<Rightarrow> 'a list \<Rightarrow> 'a list" where
  "set_add x xs = (if x \<in> set xs then xs else xs @ [x])"

definition set_delete :: "'a \<Rightarrow> 'a list \<Rightarrow> 'a list" where
  "set_delete x xs = filter (\<lambda>y. y \<noteq> x) xs"

subsection \<open>Buffer.prototype.toString and the encoding of a sent string\<close>

text \<open>
  \<^verbatim>\<open>raw.toString()\<close> decodes the payload as UTF-8. The decoder is the one of the WHATWG
  Encoding standard, which Node follows: an ill-formed sequence becomes one U+FFFD for
  its longest prefix that could begin a well-formed sequence, and decoding goes on at
  the first byte that does not fit.
\<close>

definition cont :: "byte \<Rightarrow> bool" where
  "cont b = (0x80 \<le> b \<and> b \<le> 0xBF)"

text \<open>The range of the second byte after the lead byte of a three- or four-byte sequence.\<close>

definition lower2 :: "byte \<Rightarrow> byte" where
  "lower2 b0 = (if b0 = 0xE0 then 0xA0 else if b0 = 0xF0 then 0x90 else 0x80)"

definition upper2 :: "byte \<Rightarrow> byte" where
  "upper2 b0 = (if b0 = 0xED then 0x9F else if b0 = 0xF4 then 0x8F else 0xBF)"

definition cp2 :: "byte \<Rightarrow> byte \<Rightarrow> nat" where
  "cp2 b0 b1 = (unat b0 - 0xC0) * 64 + (unat b1 - 0x80)"

definition cp3 :: "byte \<Rightarrow> byte \<Rightarrow> byte \<Rightarrow> nat" where
  "cp3 b0 b1 b2 = (unat b0 - 0xE0) * 4096 + (unat b1 - 0x80) * 64 + (unat b2 - 0x80)"

definition cp4 :: "byte \<Rightarrow> byte \<Rightarrow> byte \<Rightarrow> byte \<Rightarrow> nat" where
  "cp4 b0 b1 b2 b3 =
     (unat b0 - 0xF0) * 262144 + (unat b1 - 0x80) * 4096 + (unat b2 - 0x80) * 64
       + (unat b3 - 0x80)"

fun utf8_decode :: "byte list \<Rightarrow> jsstring" where
  "utf8_decode [] = []"
| "utf8_decode (b0 # bs) =
     (if b0 < 0x80 then unat b0 # utf8_decode bs
      else if 0xC2 \<le> b0 \<and> b0 \<le> 0xDF then
        (case bs of
           [] \<Rightarrow> [0xFFFD]
         | b1 # bs1 \<Rightarrow>
             if cont b1 then cp2 b0 b1 # utf8_decode bs1 else 0xFFFD # utf8_decode bs)
      else if 0xE0 \<le> b0 \<and> b0 \<le> 0xEF then
        (case bs of
           [] \<Rightarrow> [0xFFFD]
         | b1 # bs1 \<Rightarrow>
             if lower2 b0 \<le> b1 \<and> b1 \<le> upper2 b0 then
               (case bs1 of
                  [] \<Rightarrow> [0xFFFD]
                | b2 # bs2 \<Rightarrow>
                    if cont b2 then cp3 b0 b1 b2 # utf8_decode bs2
                    else 0xFFFD # utf8_decode bs1)
             else 0xFFFD # utf8_decode bs)
      else if 0xF0 \<le> b0 \<and> b0 \<le> 0xF4 then
        (case bs of
           [] \<Rightarrow> [0xFFFD]
         | b1 # bs1 \<Rightarrow>
             if lower2 b0 \<le> b1 \<and> b1 \<le> upper2 b0 then
               (case bs1 of
                  [] \<Rightarrow> [0xFFFD]
                | b2 # bs2 \<Rightarrow>
                    if cont b2 then
                      (case bs2 of
                         [] \<Rightarrow> [0xFFFD]
                       | b3 # bs3 \<Rightarrow>
                           if cont b3 then cp4 b0 b1 b2 b3 # utf8_decode bs3
                           else 0xFFFD # utf8_decode bs2)
                    else 0xFFFD # utf8_decode bs1)
             else 0xFFFD # utf8_decode bs)
      else 0xFFFD # utf8_decode bs)"

definition toString :: "frame \<Rightarrow> jsstring" where
  "toString raw = utf8_decode (payload raw)"

text \<open>
  \<^verbatim>\<open>send\<close> called with a string writes a text message whose payload is the UTF-8
  encoding of the string; a code point that is not a scalar value (a lone surrogate) is
  written as U+FFFD.
\<close>

definition scalar :: "nat \<Rightarrow> bool" where
  "scalar c = (c < 0xD800 \<or> (0xE000 \<le> c \<and> c < 0x110000))"

definition utf8_char :: "nat \<Rightarrow> byte list" where
  "utf8_char c =
     (if c < 0x80 then [of_nat c]
      else if c < 0x800 then [of_nat (0xC0 + c div 64), of_nat (0x80 + c mod 64)]
      else if c < 0x10000 then
        [of_nat (0xE0 + c div 4096), of_nat (0x80 + c div 64 mod 64), of_nat (0x80 + c mod 64)]
      else
        [of_nat (0xF0 + c div 262144), of_nat (0x80 + c div 4096 mod 64),
         of_nat (0x80 + c div 64 mod 64), of_nat (0x80 + c mod 64)])"

definition utf8_encode :: "jsstring \<Rightarrow> byte list" where
  "utf8_encode str = concat (map (\<lambda>c. utf8_char (if scalar c then c else 0xFFFD)) str)"

definition wire :: "jsstring \<Rightarrow> frame" where
  "wire message = \<lparr>opcode = Text, payload = utf8_encode message\<rparr>"

subsection \<open>The WebSocket handlers\<close>

text \<open>
  The broadcast loop of the \<^verbatim>\<open>message\<close> handler, over the members still to visit. The call
  of \<^verbatim>\<open>send\<close> stands in no \<^verbatim>\<open>try\<close>: when it throws, the exception leaves the loop and the
  handler.
\<close>

fun broadcast :: "ws \<Rightarrow> jsstring \<Rightarrow> ws list \<Rightarrow> server \<Rightarrow> server" where
  "broadcast ws message [] s = s"
| "broadcast ws message (client # rest) s =
     (if client \<noteq> ws \<and> readyState (sockets s client) = 1 then
        (if sendThrows (sockets s client) then s\<lparr>uncaught := True\<rparr>
         else broadcast ws message rest (s\<lparr>sent := sent s @ [(client, message)]\<rparr>))
      else broadcast ws message rest s)"

definition onMessage :: "server \<Rightarrow> ws \<Rightarrow> frame \<Rightarrow> server" where
  "onMessage s ws raw = (let message = toString raw in broadcast ws message (clients s) s)"

definition onClose :: "server \<Rightarrow> ws \<Rightarrow> server" where
  "onClose s ws = s\<lparr>clients := set_delete ws (clients s)\<rparr>"

definition onError :: "server \<Rightarrow> ws \<Rightarrow> string \<Rightarrow> server" where
  "onError s ws err = s"

definition onConnection :: "server \<Rightarrow> ws \<Rightarrow> server" where
  "onConnection s ws = s\<lparr>clients := set_add ws (clients s), listeners := listeners s @ [ws]\<rparr>"

subsection \<open>Executions\<close>

text \<open>
  The events the library delivers. \<^verbatim>\<open>Transport\<close> is the library changing a socket
  without telling the server. A \<^verbatim>\<open>connection\<close> event carries a newly constructed
  WebSocket, so one that names a socket already listening is no event; an event of a
  socket that has no handlers yet reaches no code of the server; and after an uncaught
  exception the process is gone.
\<close>

datatype event =
  Connection ws
| Message ws frame
| Close ws
| Error ws string
| Transport ws socket

definition step :: "server \<Rightarrow> event \<Rightarrow> server" where
  "step s ev =
     (if uncaught s then s
      else case ev of
        Connection ws \<Rightarrow> if ws \<in> set (listeners s) then s else onConnection s ws
      | Message ws raw \<Rightarrow> if ws \<in> set (listeners s) then onMessage s ws raw else s
      | Close ws \<Rightarrow> if ws \<in> set (listeners s) then onClose s ws else s
      | Error ws err \<Rightarrow> if ws \<in> set (listeners s) then onError s ws err else s
      | Transport ws sk \<Rightarrow> s\<lparr>sockets := (sockets s)(ws := sk)\<rparr>)"

definition run :: "server \<Rightarrow> event list \<Rightarrow> server" where
  "run s evs = foldl step s evs"

text \<open>What destination \<open>d\<close> has been handed so far, oldest first.\<close>

definition inbox :: "ws \<Rightarrow> server \<Rightarrow> jsstring list" where
  "inbox d s = map snd (filter (\<lambda>p. fst p = d) (sent s))"


text \<open>What processing the events \<open>evs\<close> from state \<open>s\<close> hands to \<open>d\<close>.\<close>

definition handed :: "ws \<Rightarrow> server \<Rightarrow> event list \<Rightarrow> jsstring list" where
  "handed d s evs = drop (length (inbox d s)) (inbox d (run s evs))"

text \<open>The test of the broadcast loop: a member other than the sender whose socket is open.\<close>

definition eligible :: "server \<Rightarrow> ws \<Rightarrow> ws \<Rightarrow> bool" where
  "eligible s ws client = (client \<noteq> ws \<and> readyState (sockets s client) = 1)"

text \<open>The calls of \<^verbatim>\<open>send\<close> made by one run of the \<^verbatim>\<open>message\<close> handler.\<close>

definition relayed :: "server \<Rightarrow> ws \<Rightarrow> frame \<Rightarrow> (ws \<times> jsstring) list" where
  "relayed s ws raw = drop (length (sent s)) (sent (onMessage s ws raw))"

section \<open>The HTTP layer and the port\<close>

subsection \<open>JavaScript values and property lookup\<close>

text \<open>
  The values that occur: \<^verbatim>\<open>undefined\<close>, strings, numbers, and \<open>Obj\<close> for the functions and
  objects an object literal inherits from \<^verbatim>\<open>Object.prototype\<close>. \<open>obj[key]\<close> finds an own
  property first and an inherited one next.
\<close>

datatype jsval = Undefined | Str string | Num nat | Obj

fun truthy :: "jsval \<Rightarrow> bool" where
  "truthy Undefined = False"
| "truthy (Str s) = (s \<noteq> [])"
| "truthy (Num n) = (n \<noteq> 0)"
| "truthy Obj = True"

definition js_or :: "jsval \<Rightarrow> jsval \<Rightarrow> jsval" where
  "js_or a b = (if truthy a then a else b)"

definition Object_prototype :: "string list" where
  "Object_prototype =
     [''constructor'', ''__defineGetter__'', ''__defineSetter__'', ''hasOwnProperty'',
      ''__lookupGetter__'', ''__lookupSetter__'', ''isPrototypeOf'', ''propertyIsEnumerable'',
      ''toString'', ''valueOf'', ''__proto__'', ''toLocaleString'']"

definition js_get :: "(string \<times> string) list \<Rightarrow> string \<Rightarrow> jsval" where
  "js_get obj key =
     (case map_of obj key of
        Some v \<Rightarrow> Str v
      | None \<Rightarrow> if key \<in> set Object_prototype then Obj else Undefined)"

subsection \<open>The port\<close>

text \<open>\<^verbatim>\<open>process.env.PORT || 8080\<close>: the variable is unset (\<^verbatim>\<open>undefined\<close>) or a string.\<close>

definition PORT :: "string option \<Rightarrow> jsval" where
  "PORT env = js_or (case env of None \<Rightarrow> Undefined | Some v \<Rightarrow> Str v) (Num 8080)"

subsection \<open>The request handler\<close>

definition ROUTES :: "(string \<times> string) list" where
  "ROUTES =
     [(''/'', ''auto.html''), (''/auto'', ''auto.html''), (''/sender'', ''sender.html''),
      (''/receiver'', ''receiver.html'')]"

definition MIME_TYPES :: "(string \<times> string) list" where
  "MIME_TYPES =
     [(''.html'', ''text/html''), (''.js'', ''application/javascript''), (''.css'', ''text/css'')]"

text \<open>
  \<^verbatim>\<open>path.join(__dirname, fileName)\<close>: \<^verbatim>\<open>__dirname\<close> is an absolute, normalised directory,
  so the join puts one separator between the two, and none after the root.
\<close>

definition path_join :: "string \<Rightarrow> string \<Rightarrow> string" where
  "path_join dir name = (if dir = ''/'' then dir @ name else dir @ ''/'' @ name)"

text \<open>
  \<^verbatim>\<open>path.extname\<close>: the last segment of the path, trailing separators skipped, from its last
  dot on; empty when there is no dot, when nothing stands before the dot, and for
  \<^verbatim>\<open>..\<close>. The segment is handled reversed.
\<close>

definition extname :: "string \<Rightarrow> string" where
  "extname p =
     (let seg = takeWhile (\<lambda>c. c \<noteq> CHR ''/'') (dropWhile (\<lambda>c. c = CHR ''/'') (rev p));
          ext = takeWhile (\<lambda>c. c \<noteq> CHR ''.'') seg;
          stem = drop (Suc (length ext)) seg
      in if CHR ''.'' \<notin> set seg \<or> stem = [] \<or> seg = ''..'' then []
         else CHR ''.'' # rev ext)"

datatype js_error = TypeError

record response =
  status :: nat
  contentType :: jsval
  body :: string

text \<open>
  The handler, with the directory of the script and the outcome of \<^verbatim>\<open>fs.readFile\<close> on
  each path (\<open>Inl\<close> the error) as parameters. The two fixed bodies contain an em dash,
  written here as its three UTF-8 bytes. \<^verbatim>\<open>path.join\<close> throws a \<^verbatim>\<open>TypeError\<close> on an argument
  that is not a string.
\<close>

definition requestHandler ::
    "string \<Rightarrow> (string \<Rightarrow> string + string) \<Rightarrow> string \<Rightarrow> js_error + response" where
  "requestHandler dirname readFile url =
     (let fileName = js_get ROUTES url in
      if \<not> truthy fileName then
        Inr \<lparr>status = 404, contentType = Str ''text/plain'',
             body = ''404 '' @ [CHR 0xE2, CHR 0x80, CHR 0x94] @ '' Not Found''\<rparr>
      else
        (case fileName of
           Str name \<Rightarrow>
             (let filePath = path_join dirname name in
              case readFile filePath of
                Inl err \<Rightarrow>
                  Inr \<lparr>status = 500, contentType = Str ''text/plain'',
                       body = ''500 '' @ [CHR 0xE2, CHR 0x80, CHR 0x94]
                                @ '' Internal Server Error''\<rparr>
              | Inr data \<Rightarrow>
                  (let ext = extname filePath;
                       contentType = js_or (js_get MIME_TYPES ext) (Str ''application/octet-stream'')
                   in Inr \<lparr>status = 200, contentType = contentType, body = data\<rparr>))
         | _ \<Rightarrow> Inl TypeError))"

section \<open>Lemmas\<close>

subsection \<open>The broadcast loop\<close>

lemma broadcast_frame:
  "clients (broadcast ws m cs s) = clients s \<and> listeners (broadcast ws m cs s) = listeners s
   \<and> sockets (broadcast ws m cs s) = sockets s"
  by (induction cs arbitrary: s) auto

lemma broadcast_sent:
  "sent (broadcast ws m cs s) =
     sent s @ map (\<lambda>c. (c, m))
       (takeWhile (\<lambda>c. \<not> sendThrows (sockets s c)) (filter (eligible s ws) cs))"
proof (induction cs arbitrary: s)
  case Nil
  then show ?case by simp
next
  case (Cons c cs)
  show ?case by (simp add: Cons eligible_def)
qed

lemma broadcast_uncaught:
  "uncaught (broadcast ws m cs s) =
     (uncaught s \<or> (\<exists>c\<in>set (filter (eligible s ws) cs). sendThrows (sockets s c)))"
  by (induction cs arbitrary: s) (auto simp: eligible_def)

lemma onMessage_frame:
  "clients (onMessage s ws raw) = clients s \<and> listeners (onMessage s ws raw) = listeners s
   \<and> sockets (onMessage s ws raw) = sockets s"
  by (simp add: onMessage_def broadcast_frame)

lemma onMessage_sent:
  "sent (onMessage s ws raw) =
     sent s @ map (\<lambda>c. (c, toString raw))
       (takeWhile (\<lambda>c. \<not> sendThrows (sockets s c)) (filter (eligible s ws) (clients s)))"
  by (simp add: onMessage_def broadcast_sent)

lemma onMessage_uncaught:
  "uncaught (onMessage s ws raw) =
     (uncaught s \<or> (\<exists>c\<in>set (filter (eligible s ws) (clients s)). sendThrows (sockets s c)))"
  by (simp add: onMessage_def broadcast_uncaught)

lemma relayed_eq:
  "relayed s ws raw = map (\<lambda>c. (c, toString raw))
       (takeWhile (\<lambda>c. \<not> sendThrows (sockets s c)) (filter (eligible s ws) (clients s)))"
  by (simp add: relayed_def onMessage_sent)

lemma length_filter_others:
  "distinct xs \<Longrightarrow> x \<in> set xs \<Longrightarrow> length (filter (\<lambda>c. c \<noteq> x) xs) = length xs - 1"
proof (induction xs)
  case Nil
  then show ?case by simp
next
  case (Cons a xs)
  show ?case
  proof (cases "a = x")
    case True
    then have "x \<notin> set xs" using Cons.prems by simp
    then have "filter (\<lambda>c. c \<noteq> x) xs = xs" by (auto simp add: filter_id_conv)
    then show ?thesis using True by simp
  next
    case False
    then have "x \<in> set xs" using Cons.prems by simp
    then have "0 < length xs" by (cases xs) auto
    moreover have "length (filter (\<lambda>c. c \<noteq> x) xs) = length xs - 1"
      using Cons \<open>x \<in> set xs\<close> by simp
    ultimately show ?thesis using False by simp
  qed
qed

subsection \<open>Steps and runs\<close>

lemma run_Nil: "run s [] = s"
  by (simp add: run_def)

lemma run_Cons: "run s (ev # evs) = run (step s ev) evs"
  by (simp add: run_def)

lemma run_append: "run s (xs @ ys) = run (run s xs) ys"
  by (simp add: run_def)

lemma run_snoc: "run s (evs @ [ev]) = step (run s evs) ev"
  by (simp add: run_def)

lemma step_uncaught: "uncaught s \<Longrightarrow> step s ev = s"
  by (simp add: step_def)

lemma step_clients:
  "clients (step s ev) =
     (if uncaught s then clients s
      else case ev of
        Connection ws \<Rightarrow> if ws \<in> set (listeners s) then clients s else set_add ws (clients s)
      | Close ws \<Rightarrow> if ws \<in> set (listeners s) then set_delete ws (clients s) else clients s
      | _ \<Rightarrow> clients s)"
  by (simp add: step_def onConnection_def onClose_def onError_def onMessage_frame
      split: event.split)

lemma step_listeners:
  "listeners (step s ev) =
     (if uncaught s then listeners s
      else case ev of
        Connection ws \<Rightarrow> if ws \<in> set (listeners s) then listeners s else listeners s @ [ws]
      | _ \<Rightarrow> listeners s)"
  by (simp add: step_def onConnection_def onClose_def onError_def onMessage_frame
      split: event.split)

lemma step_sent:
  "sent (step s ev) =
     (if uncaught s then sent s
      else case ev of
        Message ws raw \<Rightarrow> if ws \<in> set (listeners s) then sent s @ relayed s ws raw else sent s
      | _ \<Rightarrow> sent s)"
  by (simp add: step_def onConnection_def onClose_def onError_def onMessage_sent relayed_eq
      split: event.split)

lemma set_set_add: "set (set_add x xs) = insert x (set xs)"
  by (auto simp: set_add_def)

lemma set_set_delete: "set (set_delete x xs) = set xs - {x}"
  by (auto simp: set_delete_def)

lemma distinct_set_add: "distinct xs \<Longrightarrow> distinct (set_add x xs)"
  by (simp add: set_add_def)

lemma distinct_set_delete: "distinct xs \<Longrightarrow> distinct (set_delete x xs)"
  by (simp add: set_delete_def)

lemma distinct_clients_step: "distinct (clients s) \<Longrightarrow> distinct (clients (step s ev))"
  by (simp add: step_clients distinct_set_add distinct_set_delete split: event.split)

lemma distinct_clients_run: "distinct (clients s) \<Longrightarrow> distinct (clients (run s evs))"
  by (induction evs arbitrary: s) (simp_all add: run_Nil run_Cons distinct_clients_step)

lemma distinct_clients_init: "distinct (clients (run init evs))"
  by (rule distinct_clients_run) (simp add: init_def)

lemma clients_listening_step:
  "set (clients s) \<subseteq> set (listeners s) \<Longrightarrow> set (clients (step s ev)) \<subseteq> set (listeners (step s ev))"
  by (auto simp: step_clients step_listeners set_set_add set_set_delete split: event.split)

lemma clients_listening_run:
  "set (clients s) \<subseteq> set (listeners s) \<Longrightarrow> set (clients (run s evs)) \<subseteq> set (listeners (run s evs))"
  by (induction evs arbitrary: s) (simp_all add: run_Nil run_Cons clients_listening_step)

lemma set_delete_absent: "x \<notin> set xs \<Longrightarrow> set_delete x xs = xs"
  by (auto simp: set_delete_def filter_id_conv)

lemma listening_member_step:
  assumes "\<forall>ws. ws \<in> set (listeners s) \<and> Close ws \<notin> set tr \<longrightarrow> ws \<in> set (clients s)"
  shows "\<forall>ws. ws \<in> set (listeners (step s ev)) \<and> Close ws \<notin> set (tr @ [ev])
           \<longrightarrow> ws \<in> set (clients (step s ev))"
  using assms
  by (auto simp: step_clients step_listeners set_set_add set_set_delete split: event.split)

lemma listening_member_run:
  "\<forall>ws. ws \<in> set (listeners (run init tr)) \<and> Close ws \<notin> set tr
        \<longrightarrow> ws \<in> set (clients (run init tr))"
proof (induction tr rule: rev_induct)
  case Nil
  show ?case by (simp add: run_Nil init_def)
next
  case (snoc ev tr)
  show ?case unfolding run_snoc by (rule listening_member_step [OF snoc])
qed

lemma closed_stays_out_step:
  "ws \<in> set (listeners s) \<Longrightarrow> ws \<notin> set (clients s)
   \<Longrightarrow> ws \<in> set (listeners (step s ev)) \<and> ws \<notin> set (clients (step s ev))"
  by (auto simp: step_clients step_listeners set_set_add set_set_delete split: event.split)

lemma closed_stays_out_run:
  "ws \<in> set (listeners s) \<Longrightarrow> ws \<notin> set (clients s)
   \<Longrightarrow> ws \<in> set (listeners (run s evs)) \<and> ws \<notin> set (clients (run s evs))"
  by (induction evs arbitrary: s) (simp_all add: run_Nil run_Cons closed_stays_out_step)

lemma sent_step_prefix: "\<exists>new. sent (step s ev) = sent s @ new"
  by (simp add: step_sent split: event.split)

lemma sent_run_prefix: "\<exists>new. sent (run s evs) = sent s @ new"
proof (induction evs arbitrary: s)
  case Nil
  show ?case by (simp add: run_Nil)
next
  case (Cons ev evs)
  obtain a where a: "sent (step s ev) = sent s @ a" using sent_step_prefix by blast
  obtain b where b: "sent (run (step s ev) evs) = sent (step s ev) @ b" using Cons by blast
  show ?case by (simp add: run_Cons a b)
qed

lemma inbox_run: "inbox d (run s evs) = inbox d s @ handed d s evs"
proof -
  obtain new where "sent (run s evs) = sent s @ new" using sent_run_prefix by blast
  then show ?thesis by (simp add: handed_def inbox_def)
qed

lemma inbox_run_append:
  "inbox d (run s (xs @ ys)) = inbox d (run s xs) @ handed d (run s xs) ys"
  by (simp add: run_append inbox_run)

lemma one_copy:
  "distinct xs \<Longrightarrow>
     map snd (filter (\<lambda>p. fst p = d) (map (\<lambda>c. (c, m)) xs)) = (if d \<in> set xs then [m] else [])"
  by (induction xs) auto

lemma handed_message:
  assumes "distinct (clients s)"
  shows "handed d s [Message A raw] = [] \<or> handed d s [Message A raw] = [toString raw]"
proof -
  let ?xs = "takeWhile (\<lambda>c. \<not> sendThrows (sockets s c)) (filter (eligible s A) (clients s))"
  have d: "distinct ?xs" using assms by (simp add: distinct_takeWhile)
  have "handed d s [Message A raw] = [] \<or>
        handed d s [Message A raw] = map snd (filter (\<lambda>p. fst p = d) (relayed s A raw))"
    by (simp add: handed_def inbox_def run_Cons run_Nil step_sent)
  then show ?thesis
    unfolding relayed_eq one_copy [OF d] by (simp split: if_splits)
qed

subsection \<open>Decoding what was encoded\<close>

lemma digits3: "(c::nat) div 4096 * 4096 + c div 64 mod 64 * 64 + c mod 64 = c"
proof -
  have a3: "c mod 4096 = 64 * (c div 64 mod 64) + c mod 64"
    using mod_mult2_eq [of c 64 64] by simp
  have "c div 4096 * 4096 + c mod 4096 = c" by simp
  then show ?thesis unfolding a3 by (simp add: mult.commute)
qed

lemma digits4:
  "(c::nat) div 262144 * 262144 + c div 4096 mod 64 * 4096 + c div 64 mod 64 * 64 + c mod 64 = c"
proof -
  have a3: "c mod 4096 = 64 * (c div 64 mod 64) + c mod 64"
    using mod_mult2_eq [of c 64 64] by simp
  have a4: "c mod 262144 = 4096 * (c div 4096 mod 64) + c mod 4096"
    using mod_mult2_eq [of c 4096 64] by simp
  have "c div 262144 * 262144 + c mod 262144 = c" by simp
  then show ?thesis unfolding a4 a3 by (simp add: mult.commute)
qed

lemma digit_shift: "(c::nat) div (64 * n) = k \<Longrightarrow> c div n mod 64 = c div n - 64 * k"
proof -
  assume a: "c div (64 * n) = k"
  have "c div n div 64 = k" using a by (simp add: div_mult2_eq mult.commute)
  moreover have "c div n = 64 * (c div n div 64) + c div n mod 64" by simp
  ultimately show ?thesis by simp
qed

lemma unat_byte: "n < 256 \<Longrightarrow> unat (of_nat n :: byte) = n"
  by (simp add: unat_of_nat)

lemmas byte_cmp = word_le_nat_alt word_less_nat_alt word_unat_eq_iff

lemma decode1: "unat b0 < 0x80 \<Longrightarrow> utf8_decode (b0 # bs) = unat b0 # utf8_decode bs"
  by (simp add: byte_cmp)

lemma decode2:
  assumes "unat b0 = 0xC0 + h" "2 \<le> h" "h < 32" "unat b1 = 0x80 + l" "l < 64"
  shows "utf8_decode (b0 # b1 # bs) = (h * 64 + l) # utf8_decode bs"
  using assms by (simp add: byte_cmp cont_def cp2_def)

lemma decode3:
  assumes "unat b0 = 0xE0 + h" "h < 16" "unat b1 = 0x80 + m" "m < 64"
    "unat b2 = 0x80 + l" "l < 64" "h = 0 \<longrightarrow> 32 \<le> m" "h = 13 \<longrightarrow> m < 32"
  shows "utf8_decode (b0 # b1 # b2 # bs) = (h * 4096 + m * 64 + l) # utf8_decode bs"
  using assms
  apply (simp add: byte_cmp cont_def cp3_def lower2_def upper2_def)
  apply linarith
  done

lemma decode4:
  assumes "unat b0 = 0xF0 + h" "h < 5" "unat b1 = 0x80 + m" "m < 64"
    "unat b2 = 0x80 + l" "l < 64" "unat b3 = 0x80 + k" "k < 64"
    "h = 0 \<longrightarrow> 16 \<le> m" "h = 4 \<longrightarrow> m < 16"
  shows "utf8_decode (b0 # b1 # b2 # b3 # bs) = (h * 262144 + m * 4096 + l * 64 + k) # utf8_decode bs"
  using assms
  apply (simp add: byte_cmp cont_def cp4_def lower2_def upper2_def)
  apply linarith
  done


lemma decode_char1:
  assumes "c < 0x80"
  shows "utf8_decode (utf8_char c @ bs) = c # utf8_decode bs"
proof -
  have e: "utf8_char c = [of_nat c]" using assms by (simp add: utf8_char_def)
  have u: "unat (of_nat c :: byte) = c" using assms by (intro unat_byte) simp
  show ?thesis unfolding e append_Cons append_Nil
    using assms decode1 [of "of_nat c" bs] by (simp only: u)
qed

lemma decode_char2:
  assumes "0x80 \<le> c" "c < 0x800"
  shows "utf8_decode (utf8_char c @ bs) = c # utf8_decode bs"
proof -
  let ?h = "c div 64" and ?l = "c mod 64"
  have e: "utf8_char c = [of_nat (0xC0 + ?h), of_nat (0x80 + ?l)]"
    using assms by (simp add: utf8_char_def del: of_nat_add of_nat_numeral)
  have h: "2 \<le> ?h" "?h < 32" using assms by simp_all
  have l: "?l < 64" by simp
  have u0: "unat (of_nat (0xC0 + ?h) :: byte) = 0xC0 + ?h"
    using h by (intro unat_byte) simp
  have u1: "unat (of_nat (0x80 + ?l) :: byte) = 0x80 + ?l"
    using l by (intro unat_byte) simp
  have "utf8_decode (utf8_char c @ bs) = (?h * 64 + ?l) # utf8_decode bs"
    unfolding e append_Cons append_Nil by (rule decode2 [OF u0 h u1 l])
  then show ?thesis by simp
qed

lemma decode_char3:
  assumes "0x800 \<le> c" "c < 0x10000" "scalar c"
  shows "utf8_decode (utf8_char c @ bs) = c # utf8_decode bs"
proof -
  let ?h = "c div 4096" and ?m = "c div 64 mod 64" and ?l = "c mod 64"
  have e: "utf8_char c = [of_nat (0xE0 + ?h), of_nat (0x80 + ?m), of_nat (0x80 + ?l)]"
    using assms by (simp add: utf8_char_def del: of_nat_add of_nat_numeral)
  have h: "?h < 16" using assms by simp
  have m: "?m < 64" and l: "?l < 64" by simp_all
  have h0: "?h = 0 \<longrightarrow> 32 \<le> ?m"
  proof
    assume z: "?h = 0"
    have "?m = c div 64 - 64 * 0" using z by (intro digit_shift) simp
    moreover have "32 \<le> c div 64" using assms(1) by simp
    ultimately show "32 \<le> ?m" by simp
  qed
  have h13: "?h = 13 \<longrightarrow> ?m < 32"
  proof
    assume z: "?h = 13"
    have s: "?m = c div 64 - 64 * 13" using z by (intro digit_shift) simp
    have "\<not> 0xE000 \<le> c"
    proof
      assume "0xE000 \<le> c"
      then have "0xE000 div 4096 \<le> ?h" by (rule div_le_mono)
      then show False using z by simp
    qed
    then have "c < 0xD800" using assms(3) unfolding scalar_def by blast
    then have "c div 64 < 864" by simp
    then show "?m < 32" unfolding s by simp
  qed
  have u0: "unat (of_nat (0xE0 + ?h) :: byte) = 0xE0 + ?h"
    using h by (intro unat_byte) simp
  have u1: "unat (of_nat (0x80 + ?m) :: byte) = 0x80 + ?m"
    using m by (intro unat_byte) simp
  have u2: "unat (of_nat (0x80 + ?l) :: byte) = 0x80 + ?l"
    using l by (intro unat_byte) simp
  have "utf8_decode (utf8_char c @ bs) = (?h * 4096 + ?m * 64 + ?l) # utf8_decode bs"
    unfolding e append_Cons append_Nil by (rule decode3 [OF u0 h u1 m u2 l h0 h13])
  then show ?thesis by (simp only: digits3)
qed

lemma decode_char4:
  assumes "0x10000 \<le> c" "c < 0x110000"
  shows "utf8_decode (utf8_char c @ bs) = c # utf8_decode bs"
proof -
  let ?h = "c div 262144" and ?m = "c div 4096 mod 64" and ?l = "c div 64 mod 64"
    and ?k = "c mod 64"
  have e: "utf8_char c =
      [of_nat (0xF0 + ?h), of_nat (0x80 + ?m), of_nat (0x80 + ?l), of_nat (0x80 + ?k)]"
    using assms by (simp add: utf8_char_def del: of_nat_add of_nat_numeral)
  have h: "?h < 5" using assms by simp
  have m: "?m < 64" and l: "?l < 64" and k: "?k < 64" by simp_all
  have h0: "?h = 0 \<longrightarrow> 16 \<le> ?m"
  proof
    assume z: "?h = 0"
    have "?m = c div 4096 - 64 * 0" using z by (intro digit_shift) simp
    moreover have "16 \<le> c div 4096" using assms(1) by simp
    ultimately show "16 \<le> ?m" by simp
  qed
  have h4: "?h = 4 \<longrightarrow> ?m < 16"
  proof
    assume z: "?h = 4"
    have s: "?m = c div 4096 - 64 * 4" using z by (intro digit_shift) simp
    have "c div 4096 < 272" using assms(2) by simp
    then show "?m < 16" unfolding s by simp
  qed
  have u0: "unat (of_nat (0xF0 + ?h) :: byte) = 0xF0 + ?h"
    using h by (intro unat_byte) simp
  have u1: "unat (of_nat (0x80 + ?m) :: byte) = 0x80 + ?m"
    using m by (intro unat_byte) simp
  have u2: "unat (of_nat (0x80 + ?l) :: byte) = 0x80 + ?l"
    using l by (intro unat_byte) simp
  have u3: "unat (of_nat (0x80 + ?k) :: byte) = 0x80 + ?k"
    using k by (intro unat_byte) simp
  have "utf8_decode (utf8_char c @ bs)
      = (?h * 262144 + ?m * 4096 + ?l * 64 + ?k) # utf8_decode bs"
    unfolding e append_Cons append_Nil by (rule decode4 [OF u0 h u1 m u2 l u3 k h0 h4])
  then show ?thesis by (simp only: digits4)
qed

lemma decode_char:
  assumes "scalar c"
  shows "utf8_decode (utf8_char c @ bs) = c # utf8_decode bs"
proof -
  have "c < 0x110000" using assms unfolding scalar_def by linarith
  then consider "c < 0x80" | "0x80 \<le> c \<and> c < 0x800" | "0x800 \<le> c \<and> c < 0x10000"
    | "0x10000 \<le> c \<and> c < 0x110000" by linarith
  then show ?thesis
  proof cases
    case 1 then show ?thesis by (rule decode_char1)
  next
    case 2 then show ?thesis by (intro decode_char2) simp_all
  next
    case 3 then show ?thesis using assms by (intro decode_char3) simp_all
  next
    case 4 then show ?thesis by (intro decode_char4) simp_all
  qed
qed

lemma decode_encode_append:
  "\<forall>c\<in>set str. scalar c \<Longrightarrow> utf8_decode (utf8_encode str @ bs) = str @ utf8_decode bs"
  by (induction str) (simp_all add: utf8_encode_def decode_char del: utf8_decode.simps)

lemma decode_encode: "\<forall>c\<in>set str. scalar c \<Longrightarrow> utf8_decode (utf8_encode str) = str"
  using decode_encode_append [of str "[]"] by simp

subsection \<open>The decoder yields scalar values\<close>

lemma cont_unat: "cont b \<Longrightarrow> 0x80 \<le> unat b \<and> unat b - 0x80 < 64"
  unfolding cont_def byte_cmp by simp linarith

lemma cp2_scalar:
  assumes "0xC2 \<le> b0" "b0 \<le> 0xDF" "cont b1"
  shows "scalar (cp2 b0 b1)"
proof -
  have h: "unat b0 - 0xC0 < 32" using assms(1,2) unfolding byte_cmp by simp
  have l: "unat b1 - 0x80 < 64" using cont_unat [OF assms(3)] by simp
  have "(unat b0 - 0xC0) * 64 \<le> 31 * 64" using h by simp
  then show ?thesis unfolding cp2_def scalar_def using l by simp
qed

lemma cp3_scalar:
  assumes "0xE0 \<le> b0" "b0 \<le> 0xEF" "lower2 b0 \<le> b1" "b1 \<le> upper2 b0" "cont b2"
  shows "scalar (cp3 b0 b1 b2)"
proof -
  define h where "h = unat b0 - 0xE0"
  define m where "m = unat b1 - 0x80"
  define l where "l = unat b2 - 0x80"
  have h: "h < 16" using assms(1,2) unfolding h_def byte_cmp by simp
  have l: "l < 64" using cont_unat [OF assms(5)] by (simp add: l_def)
  have u1: "unat b1 \<le> 0xBF"
    using assms(4) unfolding upper2_def byte_cmp by (simp split: if_splits)
  have u2: "h = 13 \<longrightarrow> unat b1 \<le> 0x9F"
  proof
    assume "h = 13"
    then have "unat b0 = 0xED" using assms(1) unfolding h_def byte_cmp by simp
    then have "b0 = 0xED" unfolding byte_cmp by simp
    then show "unat b1 \<le> 0x9F" using assms(4) unfolding upper2_def byte_cmp by simp
  qed
  note u = u1 u2
  have m: "m < 64" "h = 13 \<longrightarrow> m < 32" using u unfolding m_def by linarith+
  have c: "cp3 b0 b1 b2 = h * 4096 + m * 64 + l"
    by (simp add: cp3_def h_def m_def l_def)
  have mm: "m * 64 \<le> 63 * 64" using m(1) by simp
  consider "h < 13" | "h = 13" | "13 < h" by linarith
  then show ?thesis
  proof cases
    case 1
    then have "h * 4096 \<le> 12 * 4096" by simp
    then show ?thesis unfolding c scalar_def using mm l by simp
  next
    case 2
    then have "m * 64 \<le> 31 * 64" using m(2) by simp
    then show ?thesis unfolding c scalar_def using 2 l by simp
  next
    case 3
    then have "14 * 4096 \<le> h * 4096" "h * 4096 \<le> 15 * 4096" using h by simp_all
    then show ?thesis unfolding c scalar_def using mm l by simp
  qed
qed


lemma cp4_scalar:
  assumes "0xF0 \<le> b0" "b0 \<le> 0xF4" "lower2 b0 \<le> b1" "b1 \<le> upper2 b0" "cont b2" "cont b3"
  shows "scalar (cp4 b0 b1 b2 b3)"
proof -
  define h where "h = unat b0 - 0xF0"
  define m where "m = unat b1 - 0x80"
  define l where "l = unat b2 - 0x80"
  define k where "k = unat b3 - 0x80"
  have h: "h < 5" using assms(1,2) unfolding h_def byte_cmp by simp
  have l: "l < 64" using cont_unat [OF assms(5)] by (simp add: l_def)
  have k: "k < 64" using cont_unat [OF assms(6)] by (simp add: k_def)
  have u1: "unat b1 \<le> 0xBF"
    using assms(4) unfolding upper2_def byte_cmp by (simp split: if_splits)
  have u2: "h = 4 \<longrightarrow> unat b1 \<le> 0x8F"
  proof
    assume "h = 4"
    then have "unat b0 = 0xF4" using assms(1) unfolding h_def byte_cmp by simp
    then have "b0 = 0xF4" unfolding byte_cmp by simp
    then show "unat b1 \<le> 0x8F" using assms(4) unfolding upper2_def byte_cmp by simp
  qed
  have u3: "h = 0 \<longrightarrow> 0x90 \<le> unat b1"
  proof
    assume "h = 0"
    then have "unat b0 = 0xF0" using assms(1) unfolding h_def byte_cmp by simp
    then have "b0 = 0xF0" unfolding byte_cmp by simp
    then show "0x90 \<le> unat b1" using assms(3) unfolding lower2_def byte_cmp by simp
  qed
  have m: "m < 64" "h = 4 \<longrightarrow> m < 16" "h = 0 \<longrightarrow> 16 \<le> m"
    using u1 u2 u3 unfolding m_def by linarith+
  have c: "cp4 b0 b1 b2 b3 = h * 262144 + m * 4096 + l * 64 + k"
    by (simp add: cp4_def h_def m_def l_def k_def)
  have lo: "0xE000 \<le> h * 262144 + m * 4096 + l * 64 + k"
  proof (cases "h = 0")
    case True
    then have "16 * 4096 \<le> m * 4096" using m by simp
    then show ?thesis by simp
  next
    case False
    then have "1 * 262144 \<le> h * 262144" by simp
    then show ?thesis by simp
  qed
  have ll: "l * 64 \<le> 63 * 64" using l by simp
  have hi: "h * 262144 + m * 4096 + l * 64 + k < 0x110000"
  proof (cases "h = 4")
    case True
    then have "m * 4096 \<le> 15 * 4096" using m by simp
    then show ?thesis using True ll k by simp
  next
    case False
    then have "h * 262144 \<le> 3 * 262144" using h by simp
    moreover have "m * 4096 \<le> 63 * 4096" using m by simp
    ultimately show ?thesis using ll k by simp
  qed
  show ?thesis unfolding c scalar_def using lo hi by simp
qed

lemma ascii_scalar: "b0 < 0x80 \<Longrightarrow> scalar (unat (b0 :: byte))"
  unfolding byte_cmp scalar_def by simp

lemma replacement_scalar: "scalar 0xFFFD"
  by (simp add: scalar_def)


lemma decode_scalar: "\<forall>c\<in>set (utf8_decode bs). scalar c"
proof (induction bs rule: length_induct)
  case (1 bs)
  have IH: "\<forall>c\<in>set (utf8_decode ys). scalar c" if "length ys < length bs" for ys
    using 1 that by blast
  show ?case
  proof (cases bs)
    case Nil
    then show ?thesis by simp
  next
    case (Cons b0 r)
    have r0: "\<forall>c\<in>set (utf8_decode r). scalar c"
      by (rule IH) (simp add: Cons)
    have r1: "\<forall>c\<in>set (utf8_decode t). scalar c" if "r = b1 # t" for b1 t
      by (rule IH) (simp add: Cons that)
    have r2: "\<forall>c\<in>set (utf8_decode t). scalar c" if "r = b1 # b2 # t" for b1 b2 t
      by (rule IH) (simp add: Cons that)
    have r3: "\<forall>c\<in>set (utf8_decode t). scalar c" if "r = b1 # b2 # b3 # t" for b1 b2 b3 t
      by (rule IH) (simp add: Cons that)
    show ?thesis
      unfolding Cons utf8_decode.simps(2)
      using r0 r1 r2 r3
      by (auto simp del: utf8_decode.simps
          simp add: ascii_scalar replacement_scalar cp2_scalar cp3_scalar cp4_scalar
          split: list.splits)
  qed
qed

subsection \<open>Encoding what was decoded\<close>

lemma byte_of_unat: "of_nat (unat (b :: byte)) = b"
  by simp

lemma low_digit: "l < 64 \<Longrightarrow> (q * 64 + l) div 64 = (q::nat) \<and> (q * 64 + l) mod 64 = l"
  by simp

lemma encode1:
  assumes "b0 < 0x80"
  shows "utf8_char (unat (b0 :: byte)) = [b0]"
proof -
  have "unat b0 < 0x80" using assms unfolding byte_cmp by simp
  then show ?thesis by (simp add: utf8_char_def)
qed

lemma encode2:
  assumes "0xC2 \<le> b0" "b0 \<le> 0xDF" "cont b1"
  shows "utf8_char (cp2 b0 b1) = [b0, b1]"
proof -
  define h where "h = unat b0 - 0xC0"
  define l where "l = unat b1 - 0x80"
  have b0: "unat b0 = 0xC0 + h" and h: "2 \<le> h" "h < 32"
    using assms(1,2) unfolding h_def byte_cmp by simp_all
  have b1: "unat b1 = 0x80 + l" and l: "l < 64"
    using cont_unat [OF assms(3)] unfolding l_def by simp_all
  have c: "cp2 b0 b1 = h * 64 + l" by (simp add: cp2_def h_def l_def)
  have d: "(h * 64 + l) div 64 = h" "(h * 64 + l) mod 64 = l" using low_digit [OF l] by simp_all
  have lo: "0x80 \<le> h * 64 + l"
  proof -
    have "2 * 64 \<le> h * 64" using h(1) by simp
    then show ?thesis by simp
  qed
  have hi: "h * 64 + l < 0x800"
  proof -
    have "h * 64 \<le> 31 * 64" using h(2) by simp
    then show ?thesis using l by simp
  qed
  have "utf8_char (h * 64 + l) = [of_nat (0xC0 + h), of_nat (0x80 + l)]"
    using lo hi l by (simp add: utf8_char_def d del: of_nat_add of_nat_numeral)
  then show ?thesis unfolding c b0 [symmetric] b1 [symmetric] byte_of_unat .
qed


lemma mid_digit:
  assumes "m < 64" "l < 64"
  shows "(h * 4096 + m * 64 + l) div 4096 = (h::nat)"
    and "(h * 4096 + m * 64 + l) div 64 mod 64 = m"
    and "(h * 4096 + m * 64 + l) mod 64 = l"
proof -
  have e: "h * 4096 + m * 64 + l = (h * 64 + m) * 64 + l" by simp
  have a: "(h * 4096 + m * 64 + l) div 64 = h * 64 + m"
    unfolding e using low_digit [OF assms(2), of "h * 64 + m"] by blast
  show "(h * 4096 + m * 64 + l) mod 64 = l"
    unfolding e using low_digit [OF assms(2), of "h * 64 + m"] by blast
  show "(h * 4096 + m * 64 + l) div 64 mod 64 = m"
    unfolding a using low_digit [OF assms(1), of h] by blast
  have "(h * 4096 + m * 64 + l) div 64 div 64 = h"
    unfolding a using low_digit [OF assms(1), of h] by blast
  then show "(h * 4096 + m * 64 + l) div 4096 = h"
    by (simp add: div_mult2_eq [symmetric])
qed

lemma encode3:
  assumes "0xE0 \<le> b0" "b0 \<le> 0xEF" "lower2 b0 \<le> b1" "b1 \<le> upper2 b0" "cont b2"
  shows "utf8_char (cp3 b0 b1 b2) = [b0, b1, b2]"
proof -
  define h where "h = unat b0 - 0xE0"
  define m where "m = unat b1 - 0x80"
  define l where "l = unat b2 - 0x80"
  have b0: "unat b0 = 0xE0 + h" and h: "h < 16"
    using assms(1,2) unfolding h_def byte_cmp by simp_all
  have b2: "unat b2 = 0x80 + l" and l: "l < 64"
    using cont_unat [OF assms(5)] unfolding l_def by simp_all
  have lo1: "0x80 \<le> unat b1"
    using assms(3) unfolding lower2_def byte_cmp by (simp split: if_splits)
  have hi1: "unat b1 \<le> 0xBF"
    using assms(4) unfolding upper2_def byte_cmp by (simp split: if_splits)
  have b1: "unat b1 = 0x80 + m" and m: "m < 64"
    using lo1 hi1 unfolding m_def by simp_all
  have z: "h = 0 \<longrightarrow> 32 \<le> m"
  proof
    assume "h = 0"
    then have "unat b0 = 0xE0" using b0 by simp
    then have "b0 = 0xE0" unfolding byte_cmp by simp
    then have "0xA0 \<le> unat b1" using assms(3) unfolding lower2_def byte_cmp by simp
    then show "32 \<le> m" unfolding m_def by simp
  qed
  have c: "cp3 b0 b1 b2 = h * 4096 + m * 64 + l" by (simp add: cp3_def h_def m_def l_def)
  note d = mid_digit [OF m l, of h]
  have lo: "0x800 \<le> h * 4096 + m * 64 + l"
  proof (cases "h = 0")
    case True
    then have "32 * 64 \<le> m * 64" using z by simp
    then show ?thesis by simp
  next
    case False
    then have "1 * 4096 \<le> h * 4096" by simp
    then show ?thesis by simp
  qed
  have hi: "h * 4096 + m * 64 + l < 0x10000"
  proof -
    have "h * 4096 \<le> 15 * 4096" using h by simp
    moreover have "m * 64 \<le> 63 * 64" using m by simp
    ultimately show ?thesis using l by simp
  qed
  have n1: "\<not> h * 4096 + m * 64 + l < 0x80" "\<not> h * 4096 + m * 64 + l < 0x800"
    using lo by simp_all
  have "utf8_char (h * 4096 + m * 64 + l)
      = [of_nat (0xE0 + h), of_nat (0x80 + m), of_nat (0x80 + l)]"
    unfolding utf8_char_def d using n1 hi by (simp only: if_False if_True)
  then show ?thesis
    unfolding c b0 [symmetric] b1 [symmetric] b2 [symmetric] byte_of_unat .
qed


lemma high_digit:
  assumes "m < 64" "l < 64" "k < 64"
  shows "(h * 262144 + m * 4096 + l * 64 + k) div 262144 = (h::nat)"
    and "(h * 262144 + m * 4096 + l * 64 + k) div 4096 mod 64 = m"
    and "(h * 262144 + m * 4096 + l * 64 + k) div 64 mod 64 = l"
    and "(h * 262144 + m * 4096 + l * 64 + k) mod 64 = k"
proof -
  have e: "h * 262144 + m * 4096 + l * 64 + k = (h * 64 + m) * 4096 + l * 64 + k" by simp
  note d = mid_digit [OF assms(2,3), of "h * 64 + m"]
  have a: "(h * 262144 + m * 4096 + l * 64 + k) div 4096 = h * 64 + m"
    unfolding e by (rule d(1))
  show "(h * 262144 + m * 4096 + l * 64 + k) div 64 mod 64 = l"
    unfolding e by (rule d(2))
  show "(h * 262144 + m * 4096 + l * 64 + k) mod 64 = k"
    unfolding e by (rule d(3))
  show "(h * 262144 + m * 4096 + l * 64 + k) div 4096 mod 64 = m"
    unfolding a using low_digit [OF assms(1), of h] by blast
  have "(h * 262144 + m * 4096 + l * 64 + k) div 4096 div 64 = h"
    unfolding a using low_digit [OF assms(1), of h] by blast
  then show "(h * 262144 + m * 4096 + l * 64 + k) div 262144 = h"
    by (simp add: div_mult2_eq [symmetric])
qed

lemma encode4:
  assumes "0xF0 \<le> b0" "b0 \<le> 0xF4" "lower2 b0 \<le> b1" "b1 \<le> upper2 b0" "cont b2" "cont b3"
  shows "utf8_char (cp4 b0 b1 b2 b3) = [b0, b1, b2, b3]"
proof -
  define h where "h = unat b0 - 0xF0"
  define m where "m = unat b1 - 0x80"
  define l where "l = unat b2 - 0x80"
  define k where "k = unat b3 - 0x80"
  have b0: "unat b0 = 0xF0 + h" and h: "h < 5"
    using assms(1,2) unfolding h_def byte_cmp by simp_all
  have b2: "unat b2 = 0x80 + l" and l: "l < 64"
    using cont_unat [OF assms(5)] unfolding l_def by simp_all
  have b3: "unat b3 = 0x80 + k" and k: "k < 64"
    using cont_unat [OF assms(6)] unfolding k_def by simp_all
  have lo1: "0x80 \<le> unat b1"
    using assms(3) unfolding lower2_def byte_cmp by (simp split: if_splits)
  have hi1: "unat b1 \<le> 0xBF"
    using assms(4) unfolding upper2_def byte_cmp by (simp split: if_splits)
  have b1: "unat b1 = 0x80 + m" and m: "m < 64"
    using lo1 hi1 unfolding m_def by simp_all
  have z: "h = 0 \<longrightarrow> 16 \<le> m"
  proof
    assume "h = 0"
    then have "unat b0 = 0xF0" using b0 by simp
    then have "b0 = 0xF0" unfolding byte_cmp by simp
    then have "0x90 \<le> unat b1" using assms(3) unfolding lower2_def byte_cmp by simp
    then show "16 \<le> m" unfolding m_def by simp
  qed
  have c: "cp4 b0 b1 b2 b3 = h * 262144 + m * 4096 + l * 64 + k"
    by (simp add: cp4_def h_def m_def l_def k_def)
  note d = high_digit [OF m l k, of h]
  have lo: "0x10000 \<le> h * 262144 + m * 4096 + l * 64 + k"
  proof (cases "h = 0")
    case True
    then have "16 * 4096 \<le> m * 4096" using z by simp
    then show ?thesis by simp
  next
    case False
    then have "1 * 262144 \<le> h * 262144" by simp
    then show ?thesis by simp
  qed
  have n1: "\<not> h * 262144 + m * 4096 + l * 64 + k < 0x80"
    "\<not> h * 262144 + m * 4096 + l * 64 + k < 0x800"
    "\<not> h * 262144 + m * 4096 + l * 64 + k < 0x10000"
    using lo by simp_all
  have "utf8_char (h * 262144 + m * 4096 + l * 64 + k)
      = [of_nat (0xF0 + h), of_nat (0x80 + m), of_nat (0x80 + l), of_nat (0x80 + k)]"
    unfolding utf8_char_def d using n1 by (simp only: if_False)
  then show ?thesis
    unfolding c b0 [symmetric] b1 [symmetric] b2 [symmetric] b3 [symmetric] byte_of_unat .
qed

lemma encode_Cons: "scalar c \<Longrightarrow> utf8_encode (c # cs) = utf8_char c @ utf8_encode cs"
  by (simp add: utf8_encode_def)

lemma encode_decode:
  "0xFFFD \<notin> set (utf8_decode bs) \<Longrightarrow> utf8_encode (utf8_decode bs) = bs"
proof (induction bs rule: length_induct)
  case (1 bs)
  have IH: "utf8_encode (utf8_decode ys) = ys"
    if "length ys < length bs" and "0xFFFD \<notin> set (utf8_decode ys)" for ys
    using 1(1) that by blast
  show ?case
  proof (cases bs)
    case Nil
    then show ?thesis by (simp add: utf8_encode_def)
  next
    case (Cons b0 r)
    have r0: "utf8_encode (utf8_decode r) = r" if "0xFFFD \<notin> set (utf8_decode r)"
      by (rule IH) (simp_all add: Cons that)
    have r1: "utf8_encode (utf8_decode t) = t"
      if "r = b1 # t" "0xFFFD \<notin> set (utf8_decode t)" for b1 t
      by (rule IH) (simp_all add: Cons that)
    have r2: "utf8_encode (utf8_decode t) = t"
      if "r = b1 # b2 # t" "0xFFFD \<notin> set (utf8_decode t)" for b1 b2 t
      by (rule IH) (simp_all add: Cons that)
    have r3: "utf8_encode (utf8_decode t) = t"
      if "r = b1 # b2 # b3 # t" "0xFFFD \<notin> set (utf8_decode t)" for b1 b2 b3 t
      by (rule IH) (simp_all add: Cons that)
    note facts = encode_Cons ascii_scalar cp2_scalar cp3_scalar cp4_scalar
      encode1 encode2 encode3 encode4
    consider (one) "b0 < 0x80"
      | (two) "\<not> b0 < 0x80" "0xC2 \<le> b0 \<and> b0 \<le> 0xDF"
      | (three) "\<not> b0 < 0x80" "\<not> (0xC2 \<le> b0 \<and> b0 \<le> 0xDF)" "0xE0 \<le> b0 \<and> b0 \<le> 0xEF"
      | (four) "\<not> b0 < 0x80" "\<not> (0xC2 \<le> b0 \<and> b0 \<le> 0xDF)" "\<not> (0xE0 \<le> b0 \<and> b0 \<le> 0xEF)"
          "0xF0 \<le> b0 \<and> b0 \<le> 0xF4"
      | (none) "\<not> b0 < 0x80" "\<not> (0xC2 \<le> b0 \<and> b0 \<le> 0xDF)" "\<not> (0xE0 \<le> b0 \<and> b0 \<le> 0xEF)"
          "\<not> (0xF0 \<le> b0 \<and> b0 \<le> 0xF4)"
      by blast
    then show ?thesis
    proof cases
      case one
      then have d: "utf8_decode (b0 # r) = unat b0 # utf8_decode r"
        by (simp only: utf8_decode.simps(2) if_True)
      show ?thesis using 1(2) r0 one unfolding Cons d
        by (simp add: facts del: utf8_decode.simps)
    next
      case two
      then have d: "utf8_decode (b0 # r) =
          (case r of [] \<Rightarrow> [0xFFFD]
           | b1 # bs1 \<Rightarrow> if cont b1 then cp2 b0 b1 # utf8_decode bs1
               else 0xFFFD # utf8_decode r)"
        by (simp only: utf8_decode.simps(2) two if_False if_True simp_thms)
      show ?thesis using 1(2) r1 two unfolding Cons d
        by (auto simp del: utf8_decode.simps simp add: facts split: list.splits if_splits)
    next
      case three
      then have d: "utf8_decode (b0 # r) =
          (case r of [] \<Rightarrow> [0xFFFD]
           | b1 # bs1 \<Rightarrow>
               if lower2 b0 \<le> b1 \<and> b1 \<le> upper2 b0 then
                 (case bs1 of [] \<Rightarrow> [0xFFFD]
                  | b2 # bs2 \<Rightarrow> if cont b2 then cp3 b0 b1 b2 # utf8_decode bs2
                      else 0xFFFD # utf8_decode bs1)
               else 0xFFFD # utf8_decode r)"
        by (simp only: utf8_decode.simps(2) three if_False if_True simp_thms)
      show ?thesis using 1(2) r2 three unfolding Cons d
        by (auto simp del: utf8_decode.simps simp add: facts split: list.splits if_splits)
    next
      case four
      then have d: "utf8_decode (b0 # r) =
          (case r of [] \<Rightarrow> [0xFFFD]
           | b1 # bs1 \<Rightarrow>
               if lower2 b0 \<le> b1 \<and> b1 \<le> upper2 b0 then
                 (case bs1 of [] \<Rightarrow> [0xFFFD]
                  | b2 # bs2 \<Rightarrow>
                      if cont b2 then
                        (case bs2 of [] \<Rightarrow> [0xFFFD]
                         | b3 # bs3 \<Rightarrow> if cont b3 then cp4 b0 b1 b2 b3 # utf8_decode bs3
                             else 0xFFFD # utf8_decode bs2)
                      else 0xFFFD # utf8_decode bs1)
               else 0xFFFD # utf8_decode r)"
        by (simp only: utf8_decode.simps(2) four if_False if_True simp_thms)
      show ?thesis using 1(2) r3 four unfolding Cons d
        by (auto simp del: utf8_decode.simps simp add: facts split: list.splits if_splits)
    next
      case none
      then have d: "utf8_decode (b0 # r) = 0xFFFD # utf8_decode r"
        by (simp only: utf8_decode.simps(2) none if_False simp_thms)
      show ?thesis using 1(2) unfolding Cons d by simp
    qed
  qed
qed

lemma encode_append: "utf8_encode (xs @ ys) = utf8_encode xs @ utf8_encode ys"
  by (simp add: utf8_encode_def)

lemma replacement_bytes: "utf8_char 0xFFFD = [0xEF, 0xBF, 0xBD]"
  by (simp add: utf8_char_def)

lemma replacement_written:
  assumes "0xFFFD \<in> set str"
  shows "\<exists>pre post. utf8_encode str = pre @ [0xEF, 0xBF, 0xBD] @ post"
proof -
  obtain a b where "str = a @ 0xFFFD # b" using assms by (meson split_list)
  then have "utf8_encode str = utf8_encode a @ [0xEF, 0xBF, 0xBD] @ utf8_encode b"
    by (simp add: encode_append encode_Cons replacement_scalar replacement_bytes)
  then show ?thesis by blast
qed

lemma ill_formed_replaced:
  assumes "\<forall>str. (\<forall>x\<in>set str. scalar x) \<longrightarrow> bs \<noteq> utf8_encode str"
  shows "0xFFFD \<in> set (utf8_decode bs) \<and> utf8_encode (utf8_decode bs) \<noteq> bs"
proof -
  have n: "utf8_encode (utf8_decode bs) \<noteq> bs"
    using assms decode_scalar [of bs] by metis
  then have "0xFFFD \<in> set (utf8_decode bs)"
    using encode_decode [of bs] by blast
  then show ?thesis using n by blast
qed

subsection \<open>Paths and property lookup\<close>

lemma inherited_not_route: "url \<in> set Object_prototype \<Longrightarrow> map_of ROUTES url = None"
  by (auto simp: Object_prototype_def ROUTES_def)

lemma target_not_inherited:
  "CHR ''/'' \<in> set url \<or> CHR ''*'' \<in> set url \<or> CHR '':'' \<in> set url
   \<Longrightarrow> url \<notin> set Object_prototype"
  by (auto simp: Object_prototype_def)


lemma routes_html:
  assumes "map_of ROUTES url = Some name"
  shows "extname (path_join dirname name) = ''.html''"
proof -
  have "name = ''auto.html'' \<or> name = ''sender.html'' \<or> name = ''receiver.html''"
    using assms by (auto simp: ROUTES_def split: if_splits)
  then show ?thesis by (auto simp: path_join_def extname_def)
qed

subsection \<open>Some executions, evaluated\<close>

lemma three_open:
  "run init [Connection 1, Connection 2, Connection 3,
       Transport 1 \<lparr>readyState = 1, sendThrows = False\<rparr>,
       Transport 2 \<lparr>readyState = 1, sendThrows = False\<rparr>,
       Transport 3 \<lparr>readyState = 1, sendThrows = False\<rparr>] =
     \<lparr>clients = [1, 2, 3], listeners = [1, 2, 3],
      sockets = (\<lambda>_. \<lparr>readyState = 0, sendThrows = False\<rparr>)
        (1 := \<lparr>readyState = 1, sendThrows = False\<rparr>,
         2 := \<lparr>readyState = 1, sendThrows = False\<rparr>,
         3 := \<lparr>readyState = 1, sendThrows = False\<rparr>),
      sent = [], uncaught = False\<rparr>"
  by (simp add: run_def step_def init_def onConnection_def set_add_def)





lemma two_open:
  "run init [Connection 1, Connection 2,
       Transport 1 \<lparr>readyState = 1, sendThrows = False\<rparr>,
       Transport 2 \<lparr>readyState = 1, sendThrows = False\<rparr>] =
     \<lparr>clients = [1, 2], listeners = [1, 2],
      sockets = (\<lambda>_. \<lparr>readyState = 0, sendThrows = False\<rparr>)
        (1 := \<lparr>readyState = 1, sendThrows = False\<rparr>,
         2 := \<lparr>readyState = 1, sendThrows = False\<rparr>),
      sent = [], uncaught = False\<rparr>"
  by (simp add: run_def step_def init_def onConnection_def set_add_def)

section \<open>The claims\<close>

subsection \<open>C1: fan-out to the other members\<close>

text \<open>
  Claim C1. When the active set has at least two members, the sender \<open>E\<close> is one of them,
  and every member's socket is open and takes the message, the \<^verbatim>\<open>message\<close> handler calls
  \<^verbatim>\<open>send\<close> once for each member other than \<open>E\<close>, in the order of the set, with the
  decoded payload: that is one call less than the set has members, and none of them is
  for \<open>E\<close>.
\<close>

theorem fan_out_exclusion:
  assumes "distinct (clients s)" and "2 \<le> length (clients s)" and "E \<in> set (clients s)"
    and "\<forall>c\<in>set (clients s). readyState (sockets s c) = 1 \<and> \<not> sendThrows (sockets s c)"
  shows "relayed s E raw = map (\<lambda>c. (c, toString raw)) (filter (\<lambda>c. c \<noteq> E) (clients s))
    \<and> length (relayed s E raw) = length (clients s) - 1
    \<and> distinct (map fst (relayed s E raw))
    \<and> set (map fst (relayed s E raw)) = set (clients s) - {E}
    \<and> sent (onMessage s E raw) = sent s @ relayed s E raw
    \<and> uncaught (onMessage s E raw) = uncaught s"
proof -
  have f: "filter (eligible s E) (clients s) = filter (\<lambda>c. c \<noteq> E) (clients s)"
    using assms(4) by (intro filter_cong) (auto simp: eligible_def)
  have t: "takeWhile (\<lambda>c. \<not> sendThrows (sockets s c)) (filter (\<lambda>c. c \<noteq> E) (clients s))
      = filter (\<lambda>c. c \<noteq> E) (clients s)"
    using assms(4) by (intro takeWhile_eq_all_conv [THEN iffD2]) auto
  have r: "relayed s E raw = map (\<lambda>c. (c, toString raw)) (filter (\<lambda>c. c \<noteq> E) (clients s))"
    by (simp add: relayed_eq f t)
  have m: "map fst (relayed s E raw) = filter (\<lambda>c. c \<noteq> E) (clients s)"
    by (simp add: r comp_def)
  have l: "length (relayed s E raw) = length (clients s) - 1"
    using length_filter_others [OF assms(1,3)] by (simp add: r)
  have d: "distinct (map fst (relayed s E raw))"
    unfolding m using assms(1) by simp
  have e: "set (map fst (relayed s E raw)) = set (clients s) - {E}"
    unfolding m by auto
  have a: "sent (onMessage s E raw) = sent s @ relayed s E raw"
    by (simp add: onMessage_sent relayed_eq)
  have u: "uncaught (onMessage s E raw) = uncaught s"
    using assms(4) by (auto simp: onMessage_uncaught)
  from r l d e a u show ?thesis by blast
qed

text \<open>Three open clients; the second sends \<^verbatim>\<open>hi\<close>, the first and the third are sent it.\<close>

theorem fan_out_exclusion_witness:
  "relayed (run init [Connection 1, Connection 2, Connection 3,
       Transport 1 \<lparr>readyState = 1, sendThrows = False\<rparr>,
       Transport 2 \<lparr>readyState = 1, sendThrows = False\<rparr>,
       Transport 3 \<lparr>readyState = 1, sendThrows = False\<rparr>]) 2
     \<lparr>opcode = Text, payload = [0x68, 0x69]\<rparr> = [(1, [0x68, 0x69]), (3, [0x68, 0x69])]"
proof -
  let ?s = "run init [Connection 1, Connection 2, Connection 3,
       Transport 1 \<lparr>readyState = 1, sendThrows = False\<rparr>,
       Transport 2 \<lparr>readyState = 1, sendThrows = False\<rparr>,
       Transport 3 \<lparr>readyState = 1, sendThrows = False\<rparr>]"
  have h1: "distinct (clients ?s)" unfolding three_open by simp
  have h2: "2 \<le> length (clients ?s)" unfolding three_open by simp
  have h3: "2 \<in> set (clients ?s)" unfolding three_open by simp
  have h4: "\<forall>c\<in>set (clients ?s). readyState (sockets ?s c) = 1 \<and> \<not> sendThrows (sockets ?s c)"
    unfolding three_open by simp
  show ?thesis
    using fan_out_exclusion [OF h1 h2 h3 h4, of "\<lparr>opcode = Text, payload = [0x68, 0x69]\<rparr>"]
    unfolding three_open by (simp add: toString_def)
qed

subsection \<open>C2: what is written to a destination\<close>

text \<open>
  Claim C2, as stated, fails: the handler relays \<^verbatim>\<open>raw.toString()\<close>. A binary message
  with the single byte FF reaches the other client as a text message with the three
  bytes EF BF BD.
\<close>

theorem binary_payload_counterexample:
  "map (wire \<circ> snd)
     (relayed (run init [Connection 1, Connection 2,
         Transport 1 \<lparr>readyState = 1, sendThrows = False\<rparr>,
         Transport 2 \<lparr>readyState = 1, sendThrows = False\<rparr>]) 1
       \<lparr>opcode = Binary, payload = [0xFF]\<rparr>)
     = [\<lparr>opcode = Text, payload = [0xEF, 0xBF, 0xBD]\<rparr>]
   \<and> \<lparr>opcode = Text, payload = [0xEF, 0xBF, 0xBD]\<rparr> \<noteq> \<lparr>opcode = Binary, payload = [0xFF]\<rparr>"
  unfolding two_open
  by (simp add: relayed_eq eligible_def toString_def wire_def utf8_encode_def
      utf8_char_def scalar_def)

text \<open>
  Claim C2, amended. Every destination of a broadcast is sent the same string, the
  payload decoded as UTF-8, and \<^verbatim>\<open>send\<close> writes it as a text message, whatever the
  framing of the message received: a binary message is not forwarded as it came. When the
  payload is well-formed UTF-8 (the encoding of a sequence of Unicode scalar values), the
  bytes written are the bytes received, and a text message is forwarded as it came. When
  the payload is not well-formed UTF-8, the string sent contains U+FFFD, the bytes
  written contain its encoding EF BF BD, and they differ from the bytes received.
\<close>

theorem relayed_as_text:
  assumes "(c, m) \<in> set (relayed s ws raw)"
  shows "m = toString raw
    \<and> wire m = \<lparr>opcode = Text, payload = utf8_encode (utf8_decode (payload raw))\<rparr>
    \<and> ((\<forall>x\<in>set str. scalar x) \<and> payload raw = utf8_encode str \<longrightarrow>
          payload (wire m) = payload raw \<and> (opcode raw = Text \<longrightarrow> wire m = raw))
    \<and> ((\<forall>str. (\<forall>x\<in>set str. scalar x) \<longrightarrow> payload raw \<noteq> utf8_encode str) \<longrightarrow>
          0xFFFD \<in> set m \<and> payload (wire m) \<noteq> payload raw
          \<and> (\<exists>pre post. payload (wire m) = pre @ [0xEF, 0xBF, 0xBD] @ post))
    \<and> (opcode raw = Binary \<longrightarrow> wire m \<noteq> raw)"
proof -
  have m: "m = toString raw"
    using assms unfolding relayed_eq by auto
  have w: "wire m = \<lparr>opcode = Text, payload = utf8_encode (utf8_decode (payload raw))\<rparr>"
    by (simp add: m wire_def toString_def)
  have good: "payload (wire m) = payload raw \<and> (opcode raw = Text \<longrightarrow> wire m = raw)"
    if "\<forall>x\<in>set str. scalar x" and "payload raw = utf8_encode str"
  proof -
    have "utf8_encode (utf8_decode (payload raw)) = payload raw"
      using that by (simp add: decode_encode)
    then show ?thesis by (simp add: w)
  qed
  have bad: "0xFFFD \<in> set m \<and> payload (wire m) \<noteq> payload raw
          \<and> (\<exists>pre post. payload (wire m) = pre @ [0xEF, 0xBF, 0xBD] @ post)"
    if h: "\<forall>str. (\<forall>x\<in>set str. scalar x) \<longrightarrow> payload raw \<noteq> utf8_encode str"
  proof -
    note r = ill_formed_replaced [OF h]
    have a: "0xFFFD \<in> set m" using r by (simp add: m toString_def)
    have p: "payload (wire m) = utf8_encode m" by (simp add: wire_def)
    have b: "payload (wire m) \<noteq> payload raw" using r by (simp add: w)
    show ?thesis using a b replacement_written [OF a] unfolding p by blast
  qed
  have bin: "opcode raw = Binary \<longrightarrow> wire m \<noteq> raw"
    by (auto simp: wire_def)
  show ?thesis using m w good bad bin by blast
qed

text \<open>
  A text message with the euro sign (E2 82 AC) is forwarded unchanged; a binary message
  with the byte FF, which is the encoding of nothing, is written with U+FFFD.
\<close>

theorem relayed_as_text_witness:
  "(2, [0x20AC]) \<in> set (relayed (run init [Connection 1, Connection 2,
       Transport 1 \<lparr>readyState = 1, sendThrows = False\<rparr>,
       Transport 2 \<lparr>readyState = 1, sendThrows = False\<rparr>]) 1
       \<lparr>opcode = Text, payload = [0xE2, 0x82, 0xAC]\<rparr>)
   \<and> scalar 0x20AC
   \<and> [0xE2, 0x82, 0xAC] = utf8_encode [0x20AC]
   \<and> wire [0x20AC] = \<lparr>opcode = Text, payload = [0xE2, 0x82, 0xAC]\<rparr>
   \<and> (2, [0xFFFD]) \<in> set (relayed (run init [Connection 1, Connection 2,
       Transport 1 \<lparr>readyState = 1, sendThrows = False\<rparr>,
       Transport 2 \<lparr>readyState = 1, sendThrows = False\<rparr>]) 1
       \<lparr>opcode = Binary, payload = [0xFF]\<rparr>)
   \<and> payload (wire [0xFFFD]) \<noteq> [0xFF]
   \<and> wire [0xFFFD] \<noteq> \<lparr>opcode = Binary, payload = [0xFF]\<rparr>"
proof -
  let ?s = "run init [Connection 1, Connection 2,
       Transport 1 \<lparr>readyState = 1, sendThrows = False\<rparr>,
       Transport 2 \<lparr>readyState = 1, sendThrows = False\<rparr>]"
  let ?raw = "\<lparr>opcode = Text, payload = [0xE2, 0x82, 0xAC]\<rparr> :: frame"
  let ?bin = "\<lparr>opcode = Binary, payload = [0xFF]\<rparr> :: frame"
  have d: "utf8_decode [0xE2, 0x82, 0xAC] = [0x20AC]"
    by (simp add: cont_def lower2_def upper2_def cp3_def)
  have h1: "(2, [0x20AC]) \<in> set (relayed ?s 1 ?raw)"
    unfolding two_open
    by (simp add: relayed_eq eligible_def toString_def d del: utf8_decode.simps)
  have h2: "\<forall>x\<in>set [0x20AC]. scalar x"
    by (simp add: scalar_def)
  have h3: "payload ?raw = utf8_encode [0x20AC]"
    by (simp add: utf8_encode_def utf8_char_def scalar_def)
  have "payload (wire [0x20AC]) = payload ?raw \<and> (opcode ?raw = Text \<longrightarrow> wire [0x20AC] = ?raw)"
    using relayed_as_text [OF h1, of "[0x20AC]"] h2 h3 by blast
  then have w: "wire [0x20AC] = ?raw" by simp
  have e: "[0xE2, 0x82, 0xAC] = utf8_encode [0x20AC]" using h3 by simp
  have c: "scalar 0x20AC" using h2 by simp
  have f: "utf8_decode [0xFF] = [0xFFFD]" by simp
  have g1: "(2, [0xFFFD]) \<in> set (relayed ?s 1 ?bin)"
    unfolding two_open
    by (simp add: relayed_eq eligible_def toString_def f del: utf8_decode.simps)
  have g2: "\<forall>str. (\<forall>x\<in>set str. scalar x) \<longrightarrow> payload ?bin \<noteq> utf8_encode str"
  proof (intro allI impI notI)
    fix str :: jsstring
    assume a: "\<forall>x\<in>set str. scalar x" and b: "payload ?bin = utf8_encode str"
    have "utf8_decode (utf8_encode str) = str" using a by (rule decode_encode)
    then have "str = [0xFFFD]" using b f by simp
    then have "utf8_encode str = [0xEF, 0xBF, 0xBD]"
      by (simp add: utf8_encode_def utf8_char_def scalar_def)
    then show False using b by simp
  qed
  have "payload (wire [0xFFFD]) \<noteq> payload ?bin \<and> (opcode ?bin = Binary \<longrightarrow> wire [0xFFFD] \<noteq> ?bin)"
    using relayed_as_text [OF g1, of "[]"] g2 by blast
  then have n: "payload (wire [0xFFFD]) \<noteq> [0xFF]" "wire [0xFFFD] \<noteq> ?bin" by simp_all
  show ?thesis using h1 c e w g1 n by blast
qed

subsection \<open>C3: membership after close and after error\<close>

text \<open>
  Claim C3, as stated, fails: the \<^verbatim>\<open>error\<close> handler writes to the console and does
  nothing else. After a connection and an error on it, the socket is still a member.
\<close>

theorem error_keeps_member_counterexample:
  "1 \<in> set (clients (run init [Connection 1, Error 1 ''read ECONNRESET'']))"
  by (simp add: run_def step_def init_def onConnection_def onError_def set_add_def)

text \<open>
  Claim C3, amended. In every execution, once the \<^verbatim>\<open>close\<close> handler of a socket has
  run, the socket is not a member of the active set, in that state and in every later
  one. The \<^verbatim>\<open>error\<close> handler changes nothing: a socket whose error event has fired stays
  a member until its close event.
\<close>

theorem closed_not_member:
  assumes "ws \<in> set (listeners (run init pre))" and "\<not> uncaught (run init pre)"
  shows "ws \<notin> set (clients (run init (pre @ Close ws # post)))
    \<and> step s (Error w err) = s"
proof -
  let ?s = "step (run init pre) (Close ws)"
  have "ws \<in> set (listeners ?s) \<and> ws \<notin> set (clients ?s)"
    using assms by (simp add: step_clients step_listeners set_set_delete)
  then have "ws \<notin> set (clients (run ?s post))"
    using closed_stays_out_run [of ws ?s post] by blast
  moreover have "step s (Error w err) = s"
    by (simp add: step_def onError_def)
  ultimately show ?thesis by (simp add: run_append run_Cons)
qed

theorem closed_not_member_witness:
  "1 \<in> set (listeners (run init [Connection 1, Connection 2]))
   \<and> \<not> uncaught (run init [Connection 1, Connection 2])
   \<and> 1 \<notin> set (clients (run init ([Connection 1, Connection 2]
         @ Close 1 # [Message 2 \<lparr>opcode = Text, payload = [0x68, 0x69]\<rparr>])))"
proof -
  have e: "run init [Connection 1, Connection 2] =
      \<lparr>clients = [1, 2], listeners = [1, 2],
       sockets = (\<lambda>_. \<lparr>readyState = 0, sendThrows = False\<rparr>), sent = [], uncaught = False\<rparr>"
    by (simp add: run_def step_def init_def onConnection_def set_add_def)
  have h1: "1 \<in> set (listeners (run init [Connection 1, Connection 2]))"
    unfolding e by simp
  have h2: "\<not> uncaught (run init [Connection 1, Connection 2])"
    unfolding e by simp
  show ?thesis
    using closed_not_member [OF h1 h2] h1 h2 by blast
qed

subsection \<open>C4: a send that fails\<close>



subsection \<open>C5: the order of one sender's messages\<close>

text \<open>
  Claim C5. In every execution in which a message \<open>m1\<close> of endpoint \<open>A\<close> is handled
  before a message \<open>m2\<close> of \<open>A\<close>, what any endpoint \<open>d\<close> has been handed is: what it had
  before, then what the first event hands it (nothing, or \<open>m1\<close> once), then what the
  events between hand it, then what the second event hands it (nothing, or \<open>m2\<close> once),
  then the rest. So an endpoint that is handed both is handed \<open>m1\<close> before \<open>m2\<close>.
\<close>

theorem sender_order:
  "inbox d (run init (tr1 @ Message A m1 # tr2 @ Message A m2 # tr3)) =
      inbox d (run init tr1)
      @ handed d (run init tr1) [Message A m1]
      @ handed d (run init (tr1 @ [Message A m1])) tr2
      @ handed d (run init (tr1 @ Message A m1 # tr2)) [Message A m2]
      @ handed d (run init (tr1 @ Message A m1 # tr2 @ [Message A m2])) tr3
   \<and> (handed d (run init tr1) [Message A m1] = []
        \<or> handed d (run init tr1) [Message A m1] = [toString m1])
   \<and> (handed d (run init (tr1 @ Message A m1 # tr2)) [Message A m2] = []
        \<or> handed d (run init (tr1 @ Message A m1 # tr2)) [Message A m2] = [toString m2])"
proof -
  have e: "tr1 @ Message A m1 # tr2 @ Message A m2 # tr3
      = (((tr1 @ [Message A m1]) @ tr2) @ [Message A m2]) @ tr3" by simp
  have "inbox d (run init (tr1 @ Message A m1 # tr2 @ Message A m2 # tr3)) =
      inbox d (run init tr1)
      @ handed d (run init tr1) [Message A m1]
      @ handed d (run init (tr1 @ [Message A m1])) tr2
      @ handed d (run init (tr1 @ Message A m1 # tr2)) [Message A m2]
      @ handed d (run init (tr1 @ Message A m1 # tr2 @ [Message A m2])) tr3"
    unfolding e inbox_run_append by simp
  then show ?thesis
    using handed_message [OF distinct_clients_init, of d tr1 A m1]
      handed_message [OF distinct_clients_init, of d "tr1 @ Message A m1 # tr2" A m2]
    by blast
qed

subsection \<open>C6: deleting a socket that is not a member\<close>

text \<open>
  Claim C6. When the socket is not a member of the active set, the \<^verbatim>\<open>close\<close> handler
  leaves the whole state as it was: the set and its size are unchanged, no exception is
  raised, every later execution goes as it would have gone, and adding or deleting a
  socket afterwards has its usual effect.
\<close>

theorem unregister_absent_noop:
  assumes "ws \<notin> set (clients s)"
  shows "onClose s ws = s
    \<and> clients (onClose s ws) = clients s
    \<and> length (clients (onClose s ws)) = length (clients s)
    \<and> uncaught (onClose s ws) = uncaught s
    \<and> run (onClose s ws) evs = run s evs
    \<and> set (clients (onConnection (onClose s ws) w)) = insert w (set (clients s))
    \<and> set (clients (onClose (onClose s ws) w)) = set (clients s) - {w}"
proof -
  have "onClose s ws = s" using assms by (simp add: onClose_def set_delete_absent)
  then show ?thesis by (simp add: onConnection_def onClose_def set_set_add set_set_delete)
qed

theorem unregister_absent_noop_witness:
  "2 \<notin> set (clients (run init [Connection 1]))
   \<and> onClose (run init [Connection 1]) 2 = run init [Connection 1]
   \<and> set (clients (onConnection (onClose (run init [Connection 1]) 2) 3))
        = insert 3 (set (clients (run init [Connection 1])))"
proof -
  have e: "run init [Connection 1] =
      \<lparr>clients = [1], listeners = [1],
       sockets = (\<lambda>_. \<lparr>readyState = 0, sendThrows = False\<rparr>), sent = [], uncaught = False\<rparr>"
    by (simp add: run_def step_def init_def onConnection_def set_add_def)
  have h: "2 \<notin> set (clients (run init [Connection 1]))"
    unfolding e by simp
  show ?thesis
    using unregister_absent_noop [OF h, of "[]" 3] h by blast
qed

subsection \<open>C7: a socket is a member before its messages are handled\<close>

text \<open>
  Claim C7. The connection callback adds the socket to the active set and only then
  attaches the \<^verbatim>\<open>message\<close> handler, and it runs to its end before another event is
  dispatched. So in every execution, a socket whose messages are handled (it has the
  handler) and whose close event has not come is a member of the active set, and a
  message of a socket that has no handler yet reaches no code and changes nothing. (The
  library emits no message of a socket after its close event.)
\<close>

theorem registered_before_message:
  "(ws \<in> set (listeners (run init pre)) \<and> Close ws \<notin> set pre
      \<longrightarrow> ws \<in> set (clients (run init pre)))
   \<and> (ws \<notin> set (listeners (run init pre))
      \<longrightarrow> step (run init pre) (Message ws raw) = run init pre)"
  using listening_member_run [of pre] by (auto simp: step_def)

theorem registered_before_message_witness:
  "(1 \<in> set (listeners (run init [Connection 1])) \<and> Close 1 \<notin> set [Connection 1])
   \<and> 1 \<in> set (clients (run init [Connection 1]))
   \<and> 2 \<notin> set (listeners (run init [Connection 1]))
   \<and> step (run init [Connection 1]) (Message 2 \<lparr>opcode = Text, payload = [0x68, 0x69]\<rparr>)
        = run init [Connection 1]"
proof -
  have e: "run init [Connection 1] =
      \<lparr>clients = [1], listeners = [1],
       sockets = (\<lambda>_. \<lparr>readyState = 0, sendThrows = False\<rparr>), sent = [], uncaught = False\<rparr>"
    by (simp add: run_def step_def init_def onConnection_def set_add_def)
  have h1: "1 \<in> set (listeners (run init [Connection 1])) \<and> Close 1 \<notin> set [Connection 1]"
    unfolding e by simp
  have h2: "2 \<notin> set (listeners (run init [Connection 1]))"
    unfolding e by simp
  show ?thesis
    using registered_before_message [of 1 "[Connection 1]"]
      registered_before_message
        [of 2 "[Connection 1]" "\<lparr>opcode = Text, payload = [0x68, 0x69]\<rparr>"] h1 h2
    by blast
qed

subsection \<open>C8: the responses of the HTTP handler\<close>

text \<open>
  Claim C8. A request whose target is not one of the four routes is answered with 404;
  a request for a route whose file cannot be read is answered with 500; a request for a
  route whose file is read is answered with 200, the file as body, and the content type
  that \<^verbatim>\<open>MIME_TYPES\<close> gives for the extension of the file's path, which is
  \<^verbatim>\<open>text/html\<close> for every route. The first holds of every string but the twelve names
  that \<^verbatim>\<open>ROUTES\<close> inherits from \<^verbatim>\<open>Object.prototype\<close>, on which the handler throws; a
  request target is none of them, since it contains a slash, an asterisk or a colon.
\<close>

theorem request_responses:
  "(url \<notin> set Object_prototype \<and> map_of ROUTES url = None \<longrightarrow>
      requestHandler dirname readFile url =
        Inr \<lparr>status = 404, contentType = Str ''text/plain'',
             body = ''404 '' @ [CHR 0xE2, CHR 0x80, CHR 0x94] @ '' Not Found''\<rparr>)
   \<and> (CHR ''/'' \<in> set url \<or> CHR ''*'' \<in> set url \<or> CHR '':'' \<in> set url
        \<longrightarrow> url \<notin> set Object_prototype)
   \<and> (url \<in> set Object_prototype \<longrightarrow> requestHandler dirname readFile url = Inl TypeError)
   \<and> (map_of ROUTES url = Some name \<and> readFile (path_join dirname name) = Inl err \<longrightarrow>
      requestHandler dirname readFile url =
        Inr \<lparr>status = 500, contentType = Str ''text/plain'',
             body = ''500 '' @ [CHR 0xE2, CHR 0x80, CHR 0x94] @ '' Internal Server Error''\<rparr>)
   \<and> (map_of ROUTES url = Some name \<and> readFile (path_join dirname name) = Inr data \<longrightarrow>
      requestHandler dirname readFile url =
        Inr \<lparr>status = 200,
             contentType = js_or (js_get MIME_TYPES (extname (path_join dirname name)))
                             (Str ''application/octet-stream''),
             body = data\<rparr>
      \<and> extname (path_join dirname name) = ''.html''
      \<and> js_or (js_get MIME_TYPES (extname (path_join dirname name)))
           (Str ''application/octet-stream'') = Str ''text/html'')"
proof -
  have n: "truthy (Str name)" if "map_of ROUTES url = Some name"
    using that by (auto simp: ROUTES_def split: if_splits)
  have g: "js_get ROUTES url = Str name" if "map_of ROUTES url = Some name"
    using that by (simp add: js_get_def)
  have a: "requestHandler dirname readFile url =
        Inr \<lparr>status = 404, contentType = Str ''text/plain'',
             body = ''404 '' @ [CHR 0xE2, CHR 0x80, CHR 0x94] @ '' Not Found''\<rparr>"
    if "url \<notin> set Object_prototype" and "map_of ROUTES url = None"
    using that by (simp add: requestHandler_def js_get_def)
  have i: "requestHandler dirname readFile url = Inl TypeError"
    if "url \<in> set Object_prototype"
    using that inherited_not_route [OF that] by (simp add: requestHandler_def js_get_def)
  have b: "requestHandler dirname readFile url =
        Inr \<lparr>status = 500, contentType = Str ''text/plain'',
             body = ''500 '' @ [CHR 0xE2, CHR 0x80, CHR 0x94] @ '' Internal Server Error''\<rparr>"
    if "map_of ROUTES url = Some name" and "readFile (path_join dirname name) = Inl err"
    using that n g by (simp add: requestHandler_def Let_def)
  have c: "requestHandler dirname readFile url =
        Inr \<lparr>status = 200,
             contentType = js_or (js_get MIME_TYPES (extname (path_join dirname name)))
                             (Str ''application/octet-stream''),
             body = data\<rparr>"
    if "map_of ROUTES url = Some name" and "readFile (path_join dirname name) = Inr data"
    using that n g by (simp add: requestHandler_def Let_def)
  have d: "js_or (js_get MIME_TYPES (extname (path_join dirname name)))
           (Str ''application/octet-stream'') = Str ''text/html''"
    if "map_of ROUTES url = Some name"
    by (simp add: routes_html [OF that] js_get_def MIME_TYPES_def js_or_def)
  show ?thesis
    using a i b c d routes_html [of url name dirname] target_not_inherited [of url] by blast
qed

theorem request_responses_witness:
  "requestHandler ''/srv/app'' (\<lambda>p. Inl ''ENOENT'') ''/favicon.ico'' =
      Inr \<lparr>status = 404, contentType = Str ''text/plain'',
           body = ''404 '' @ [CHR 0xE2, CHR 0x80, CHR 0x94] @ '' Not Found''\<rparr>
   \<and> requestHandler ''/srv/app'' (\<lambda>p. Inl ''ENOENT'') ''*x'' =
      Inr \<lparr>status = 404, contentType = Str ''text/plain'',
           body = ''404 '' @ [CHR 0xE2, CHR 0x80, CHR 0x94] @ '' Not Found''\<rparr>
   \<and> requestHandler ''/srv/app'' (\<lambda>p. Inl ''ENOENT'') ''/sender'' =
      Inr \<lparr>status = 500, contentType = Str ''text/plain'',
           body = ''500 '' @ [CHR 0xE2, CHR 0x80, CHR 0x94] @ '' Internal Server Error''\<rparr>
   \<and> requestHandler ''/srv/app'' (\<lambda>p. Inr ''<html></html>'') ''/'' =
      Inr \<lparr>status = 200, contentType = Str ''text/html'', body = ''<html></html>''\<rparr>"
proof -
  have h1: "''/favicon.ico'' \<notin> set Object_prototype \<and> map_of ROUTES ''/favicon.ico'' = None"
    by (simp add: Object_prototype_def ROUTES_def)
  have h0: "''*x'' \<notin> set Object_prototype \<and> map_of ROUTES ''*x'' = None"
    by (simp add: Object_prototype_def ROUTES_def)
  have h2: "map_of ROUTES ''/sender'' = Some ''sender.html''
      \<and> (\<lambda>p. Inl ''ENOENT'' :: string + string) (path_join ''/srv/app'' ''sender.html'')
          = Inl ''ENOENT''"
    by (simp add: ROUTES_def)
  have h3: "map_of ROUTES ''/'' = Some ''auto.html''
      \<and> (\<lambda>p. Inr ''<html></html>'' :: string + string) (path_join ''/srv/app'' ''auto.html'')
          = Inr ''<html></html>''"
    by (simp add: ROUTES_def)
  have r1: "requestHandler ''/srv/app'' (\<lambda>p. Inl ''ENOENT'') ''/favicon.ico'' =
      Inr \<lparr>status = 404, contentType = Str ''text/plain'',
           body = ''404 '' @ [CHR 0xE2, CHR 0x80, CHR 0x94] @ '' Not Found''\<rparr>"
    using request_responses [where url = "''/favicon.ico''" and dirname = "''/srv/app''"
        and readFile = "\<lambda>p. Inl ''ENOENT''"] h1 by blast
  have r0: "requestHandler ''/srv/app'' (\<lambda>p. Inl ''ENOENT'') ''*x'' =
      Inr \<lparr>status = 404, contentType = Str ''text/plain'',
           body = ''404 '' @ [CHR 0xE2, CHR 0x80, CHR 0x94] @ '' Not Found''\<rparr>"
    using request_responses [where url = "''*x''" and dirname = "''/srv/app''"
        and readFile = "\<lambda>p. Inl ''ENOENT''"] h0 by blast
  have r2: "requestHandler ''/srv/app'' (\<lambda>p. Inl ''ENOENT'') ''/sender'' =
      Inr \<lparr>status = 500, contentType = Str ''text/plain'',
           body = ''500 '' @ [CHR 0xE2, CHR 0x80, CHR 0x94] @ '' Internal Server Error''\<rparr>"
    using request_responses [where url = "''/sender''" and name = "''sender.html''"
        and dirname = "''/srv/app''" and readFile = "\<lambda>p. Inl ''ENOENT''"
        and err = "''ENOENT''"] h2 by simp
  have r3: "requestHandler ''/srv/app'' (\<lambda>p. Inr ''<html></html>'') ''/'' =
      Inr \<lparr>status = 200, contentType = Str ''text/html'', body = ''<html></html>''\<rparr>"
    using request_responses [where url = "''/''" and name = "''auto.html''"
        and dirname = "''/srv/app''" and readFile = "\<lambda>p. Inr ''<html></html>''"
        and data = "''<html></html>''"] h3
    by (simp add: js_or_def js_get_def MIME_TYPES_def)
  show ?thesis using r1 r0 r2 r3 by blast
qed

subsection \<open>C9: a message leaves the active set alone\<close>

text \<open>
  Claim C9. The \<^verbatim>\<open>message\<close> handler does not change the active set, and neither does an
  error event or a change of a socket by the library: of the events, only a connection
  and a close change the set.
\<close>

theorem message_keeps_clients:
  "clients (onMessage s ws raw) = clients s
   \<and> clients (step s (Message ws raw)) = clients s
   \<and> clients (step s (Error ws err)) = clients s
   \<and> clients (step s (Transport ws sk)) = clients s"
  by (simp add: onMessage_frame step_clients)

subsection \<open>C10: the port\<close>

text \<open>
  Claim C10, as stated, fails: every string but the empty one is truthy in JavaScript.
  With \<^verbatim>\<open>PORT=0\<close> the server listens on \<^verbatim>\<open>"0"\<close>, not on 8080.
\<close>

theorem port_zero_counterexample:
  "PORT (Some ''0'') = Str ''0'' \<and> PORT (Some ''0'') \<noteq> Num 8080"
  by (simp add: PORT_def js_or_def)

text \<open>
  Claim C10, amended. The value passed to \<^verbatim>\<open>listen\<close> is 8080 when the variable is unset
  or is the empty string, and is the string of the variable whenever that string is not
  empty, \<^verbatim>\<open>"0"\<close> included.
\<close>

theorem port_or_default:
  "(env = None \<or> env = Some [] \<longrightarrow> PORT env = Num 8080)
   \<and> (v \<noteq> [] \<longrightarrow> PORT (Some v) = Str v)"
  by (auto simp: PORT_def js_or_def)

theorem port_or_default_witness:
  "PORT None = Num 8080 \<and> PORT (Some []) = Num 8080 \<and> PORT (Some ''3000'') = Str ''3000''"
  using port_or_default [of None "''3000''"] port_or_default [of "Some []" "''3000''"]
  by simp

end
